theory Spec2Isabelle
  imports Complex_Main "HOL-Library.Word" "HOL-Library.Multiset"
begin

unbundle bit_operations_syntax

section \<open>Machine types\<close>

text \<open>
  A C++ \<open>int\<close> is a 32-bit two's-complement value, read with \<open>sint\<close> and compared
  with the signed orders \<open>\<le>s\<close> and \<open><s\<close>. A \<open>size_t\<close> that is computed with is a
  64-bit word; sizes and counts that are only counted up to (a vector's length, the
  \<open>unsigned int\<close> loop bounds) are natural numbers.
\<close>

type_synonym cint = "32 word"
type_synonym size_t = "64 word"

text \<open>
  What the C++ leaves undefined or answers with an exception is a value of \<open>error\<close>:
  a vector whose requested length does not fit (\<open>std::vector<int>(n)\<close> for a negative
  \<open>n\<close>), and an element access outside the vector.
\<close>

datatype error = vector_too_large | out_of_range

section \<open>model.hh: sequence\<close>

text \<open>\<open>class sequence\<close>: a generator holding \<open>value_m\<close>; each call returns it and increments it.\<close>

record sequence =
  value_m :: cint

definition sequence_init :: "cint \<Rightarrow> sequence" where
  "sequence_init start = \<lparr>value_m = start\<rparr>"

text \<open>\<open>int operator()() { return value_m++; }\<close>: the old value, and the generator after the call.\<close>

definition sequence_call :: "sequence \<Rightarrow> cint \<times> sequence" where
  "sequence_call s = (value_m s, s\<lparr>value_m := value_m s + 1\<rparr>)"

text \<open>
  \<open>std::generate(first, last, gen)\<close> with a \<open>sequence\<close>: every element of the range,
  in order, is overwritten with the next value of the generator.
\<close>

fun generate :: "cint list \<Rightarrow> sequence \<Rightarrow> cint list" where
  "generate [] gen = []"
| "generate (x # xs) gen =
     (case sequence_call gen of (v, gen') \<Rightarrow> v # generate xs gen')"

section \<open>model.hh: permutation_problem\<close>

record permutation_problem =
  pi_m :: "cint list"

text \<open>
  \<open>permutation_problem(int n) : pi_m(n) { std::generate(pi_m.begin(), pi_m.end(), sequence(0)); }\<close>
  The vector is made of \<open>n\<close> zeroes (a negative \<open>n\<close>, converted to the unsigned
  length, is refused by the vector), then filled by the generator.
\<close>

definition permutation_problem_init :: "cint \<Rightarrow> error + permutation_problem" where
  "permutation_problem_init n =
     (if n <s 0 then Inl vector_too_large
      else Inr \<lparr>pi_m = generate (replicate (nat (sint n)) 0) (sequence_init 0)\<rparr>)"

text \<open>\<open>size() { return pi_m.size(); }\<close>\<close>

definition size_pp :: "permutation_problem \<Rightarrow> nat" where
  "size_pp p = length (pi_m p)"

text \<open>
  \<open>pi_m[i]\<close> takes a \<open>size_t\<close>: the \<open>int\<close> index is sign-extended to 64 bits and
  read unsigned, so a negative index is a huge one.
\<close>

definition index_of :: "cint \<Rightarrow> nat" where
  "index_of i = unat (scast i :: size_t)"

text \<open>
  \<open>swap(int i, int j) { std::swap(pi_m[i], pi_m[j]); }\<close>
  \<open>std::swap(a, b)\<close> is \<open>tmp = a; a = b; b = tmp\<close>. An index outside the vector is
  undefined behaviour in the C++, \<open>out_of_range\<close> here.
\<close>

definition swap :: "permutation_problem \<Rightarrow> cint \<Rightarrow> cint \<Rightarrow> error + permutation_problem" where
  "swap p i j =
     (if index_of i < length (pi_m p) \<and> index_of j < length (pi_m p)
      then Inr (p\<lparr>pi_m := (pi_m p)[index_of i := pi_m p ! index_of j,
                                   index_of j := pi_m p ! index_of i]\<rparr>)
      else Inl out_of_range)"

text \<open>
  The \<open>size_t\<close> returned by \<open>p.size()\<close> is passed where \<open>uniform_int<>\<close> takes an
  \<open>int\<close>: the conversion keeps the low 32 bits.
\<close>

definition size_as_int :: "permutation_problem \<Rightarrow> cint" where
  "size_as_int p = of_nat (size_pp p)"

section \<open>model.hh: perturbate\<close>

text \<open>
  \<open>std::tr1::uniform_int<>\<close> and the random generator belong to the standard library.
  The call \<open>int_range(rng, n)\<close> is a parameter \<open>int_range\<close> of the model: from the
  generator's state and the bound it gives the drawn number and the next state.

  \<open>while(p1 == p2) p2 = int_range(rng, p.size());\<close>
  The loop ends only when a draw differs from \<open>p1\<close>; a run that never ends is \<open>None\<close>.
\<close>

partial_function (option) redraw ::
  "('g \<Rightarrow> cint \<Rightarrow> cint \<times> 'g) \<Rightarrow> cint \<Rightarrow> cint \<Rightarrow> cint \<Rightarrow> 'g \<Rightarrow> (cint \<times> 'g) option" where
  "redraw int_range sz p1 p2 rng =
     (if p1 = p2
      then (case int_range rng sz of (p2', rng') \<Rightarrow> redraw int_range sz p1 p2' rng')
      else Some (p2, rng))"

text \<open>
  \<open>for(unsigned int ii=0; ii!=n; ++ii) { p1 = ...; p2 = ...; while ...; p.swap(p1, p2); }\<close>
  The recursion is on the number of rounds still to run, \<open>n - ii\<close>.
\<close>

fun perturbate ::
  "('g \<Rightarrow> cint \<Rightarrow> cint \<times> 'g) \<Rightarrow> permutation_problem \<Rightarrow> nat \<Rightarrow> 'g
     \<Rightarrow> (error + permutation_problem \<times> 'g) option" where
  "perturbate int_range p 0 rng = Some (Inr (p, rng))"
| "perturbate int_range p (Suc n) rng =
     (case int_range rng (size_as_int p) of (p1, rng1) \<Rightarrow>
       (case int_range rng1 (size_as_int p) of (p2, rng2) \<Rightarrow>
         (case redraw int_range (size_as_int p) p1 p2 rng2 of
            None \<Rightarrow> None
          | Some (p2', rng3) \<Rightarrow>
              (case swap p p1 p2' of
                 Inl e \<Rightarrow> Some (Inl e)
               | Inr p' \<Rightarrow> perturbate int_range p' n rng3))))"

section \<open>model.hh: swap_elements\<close>

text \<open>\<open>std::min(a, b)\<close> is \<open>(b < a) ? b : a\<close> and \<open>std::max(a, b)\<close> is \<open>(a < b) ? b : a\<close>.\<close>

definition std_min :: "cint \<Rightarrow> cint \<Rightarrow> cint" where
  "std_min a b = (if b <s a then b else a)"

definition std_max :: "cint \<Rightarrow> cint \<Rightarrow> cint" where
  "std_max a b = (if a <s b then b else a)"

record swap_elements =
  p1 :: cint
  p2 :: cint

text \<open>\<open>swap_elements(int from, int to) : p1(std::min(from,to)), p2(std::max(from,to)) { }\<close>\<close>

definition swap_elements_init :: "cint \<Rightarrow> cint \<Rightarrow> swap_elements" where
  "swap_elements_init from to = \<lparr>p1 = std_min from to, p2 = std_max from to\<rparr>"

text \<open>\<open>apply(s) { ... sol.swap(p1, p2); }\<close>\<close>

definition apply_swap_elements ::
  "swap_elements \<Rightarrow> permutation_problem \<Rightarrow> error + permutation_problem" where
  "apply_swap_elements m s = swap s (p1 m) (p2 m)"

text \<open>
  \<open>size_t hash() const { return (p1)<<16^(p2); }\<close>
  The shift binds tighter than the exclusive or; the \<open>int\<close> result is sign-extended
  to the \<open>size_t\<close>.
\<close>

definition hash :: "swap_elements \<Rightarrow> size_t" where
  "hash m = scast (push_bit 16 (p1 m) XOR p2 m)"

text \<open>\<open>void change(int from, int to) { p1 = std::min(from,to); p2 = std::max(from,to); }\<close>\<close>

definition change :: "swap_elements \<Rightarrow> cint \<Rightarrow> cint \<Rightarrow> swap_elements" where
  "change m from to = m\<lparr>p1 := std_min from to, p2 := std_max from to\<rparr>"

text \<open>
  Modelled from the spec: \<open>swap_elements::operator==\<close> is declared in model.hh and
  defined outside it. The spec: "Equality: same canonical pair."
\<close>

definition swap_elements_eq :: "swap_elements \<Rightarrow> swap_elements \<Rightarrow> bool" where
  "swap_elements_eq m other \<longleftrightarrow> p1 m = p1 other \<and> p2 m = p2 other"

text \<open>
  The states a \<open>swap_elements\<close> object goes through: it is made by the constructor and
  changed by \<open>change\<close>. (The friend class \<open>swap_neighborhood\<close> may write \<open>p1\<close>
  and \<open>p2\<close> too; its member functions are not defined in model.hh, and their model
  below goes through \<open>change\<close>.)
\<close>

inductive swap_elements_lifetime :: "swap_elements \<Rightarrow> bool" where
  constructed: "swap_elements_lifetime (swap_elements_init from to)"
| changed: "swap_elements_lifetime m \<Longrightarrow> swap_elements_lifetime (change m from to)"

section \<open>model.hh: move_manager\<close>

text \<open>
  \<open>std::deque<move*> moves_m\<close>: the queue of the neighborhood's moves, in order.
  The kind of move is a type parameter.
\<close>

record 'm move_manager =
  moves_m :: "'m list"

text \<open>\<open>move_manager() : moves_m() { }\<close>\<close>

definition move_manager_init :: "'m move_manager" where
  "move_manager_init = \<lparr>moves_m = []\<rparr>"

text \<open>\<open>size_type size() const { return moves_m.size(); }\<close>\<close>

definition size_mm :: "('m, 'x) move_manager_scheme \<Rightarrow> nat" where
  "size_mm mm = length (moves_m mm)"

section \<open>model.hh: swap_neighborhood\<close>

text \<open>
  The class adds to the move manager the random generator and the number of moves.
  Its members \<open>rng\<close> and \<open>n\<close> are \<open>rng_m\<close> and \<open>n_moves\<close> here (the short
  names are variables of the theorems); \<open>int_range\<close> is the parameter described
  above; \<open>nc\<close> is declared and has no documented use.
\<close>

record 'g swap_neighborhood = "swap_elements move_manager" +
  rng_m :: 'g
  n_moves :: nat
  nc :: nat

text \<open>
  Modelled from the spec: the constructor, \<open>refresh\<close> and \<open>randomize_move\<close> of
  \<open>swap_neighborhood\<close> are declared in model.hh and defined outside it.
  The spec: "Parameters: a random source and a count m of moves to publish per refresh";
  "treat [size()] as zero until refreshed".
\<close>

definition swap_neighborhood_init :: "'g \<Rightarrow> nat \<Rightarrow> 'g swap_neighborhood" where
  "swap_neighborhood_init r moves = \<lparr>moves_m = [], rng_m = r, n_moves = moves, nc = 0\<rparr>"

text \<open>
  Modelled from the spec: "For each slot it draws i, j uniformly in [0, size(sol)); if
  i == j it re-draws j until distinct; then sets the move's canonical (p1, p2)."
  The declared signature is \<open>randomize_move(swap_elements& m, unsigned int size)\<close>;
  the re-drawing is the loop of \<open>perturbate\<close>, the canonical pair is set by \<open>change\<close>.
\<close>

definition randomize_move ::
  "('g \<Rightarrow> cint \<Rightarrow> cint \<times> 'g) \<Rightarrow> swap_elements \<Rightarrow> nat \<Rightarrow> 'g \<Rightarrow> (swap_elements \<times> 'g) option" where
  "randomize_move int_range m sz rng =
     (case int_range rng (of_nat sz) of (i, rng1) \<Rightarrow>
       (case int_range rng1 (of_nat sz) of (j, rng2) \<Rightarrow>
         (case redraw int_range (of_nat sz) i j rng2 of
            None \<Rightarrow> None
          | Some (j', rng3) \<Rightarrow> Some (change m i j', rng3))))"

text \<open>
  Modelled from the spec: "on refresh, it resizes its move list to exactly m swaps. Each
  slot is either allocated once and mutated (preferred, to avoid churn) or reallocated."
  Slots that exist are kept, missing ones are allocated, and every slot is randomized
  in order against the size of the solution.
\<close>

definition resize_moves :: "nat \<Rightarrow> swap_elements list \<Rightarrow> swap_elements list" where
  "resize_moves m ms = take m ms @ replicate (m - length ms) (swap_elements_init 0 0)"

fun randomize_moves ::
  "('g \<Rightarrow> cint \<Rightarrow> cint \<times> 'g) \<Rightarrow> swap_elements list \<Rightarrow> nat \<Rightarrow> 'g
     \<Rightarrow> (swap_elements list \<times> 'g) option" where
  "randomize_moves int_range [] sz rng = Some ([], rng)"
| "randomize_moves int_range (m # ms) sz rng =
     (case randomize_move int_range m sz rng of
        None \<Rightarrow> None
      | Some (m', rng') \<Rightarrow>
          (case randomize_moves int_range ms sz rng' of
             None \<Rightarrow> None
           | Some (ms', rng'') \<Rightarrow> Some (m' # ms', rng'')))"

definition refresh ::
  "('g \<Rightarrow> cint \<Rightarrow> cint \<times> 'g) \<Rightarrow> 'g swap_neighborhood \<Rightarrow> permutation_problem
     \<Rightarrow> 'g swap_neighborhood option" where
  "refresh int_range nb s =
     (case randomize_moves int_range (resize_moves (n_moves nb) (moves_m nb)) (size_pp s) (rng_m nb) of
        None \<Rightarrow> None
      | Some (ms, rng') \<Rightarrow> Some (nb\<lparr>moves_m := ms, rng_m := rng'\<rparr>))"

section \<open>abstract_search\<close>

text \<open>
  \<open>static const int MOVE_MADE = 0;\<close>
  \<open>static const int IMPROVEMENT_MADE = 0;\<close>
\<close>

definition MOVE_MADE :: cint where
  "MOVE_MADE = 0"

definition IMPROVEMENT_MADE :: cint where
  "IMPROVEMENT_MADE = 0"

text \<open>
  The members of \<open>abstract_search\<close>: the three references, the iterator of the current
  move (none after construction) and the step code. The member \<open>moves_m\<close> of the
  class is \<open>search_moves_m\<close> here, apart from the queue of the move manager.
\<close>

record ('s, 'r, 'mm) abstract_search =
  solution_recorder_m :: 'r
  working_solution_m :: 's
  search_moves_m :: 'mm
  current_move_m :: "nat option"
  step_m :: cint

text \<open>The constructor value-initialises \<open>current_move_m()\<close> and \<open>step_m()\<close>.\<close>

definition abstract_search_init :: "'s \<Rightarrow> 'r \<Rightarrow> 'mm \<Rightarrow> ('s, 'r, 'mm) abstract_search" where
  "abstract_search_init working recorder moveman =
     \<lparr>solution_recorder_m = recorder, working_solution_m = working,
      search_moves_m = moveman, current_move_m = None, step_m = 0\<rparr>"

text \<open>\<open>int step() const { return step_m; }\<close>\<close>

definition step :: "('s, 'r, 'mm) abstract_search \<Rightarrow> cint" where
  "step a = step_m a"

section \<open>best_ever_solution\<close>






section \<open>Notions of the claims\<close>

text \<open>The vector holds each of \<open>0, ..., n - 1\<close> exactly once.\<close>

definition is_permutation :: "nat \<Rightarrow> permutation_problem \<Rightarrow> bool" where
  "is_permutation n P \<longleftrightarrow> mset (pi_m P) = mset (map of_nat [0..<n])"

text \<open>A sequence of swaps, each made by \<open>swap\<close>, stopping at the first error.\<close>

fun swap_all :: "permutation_problem \<Rightarrow> (cint \<times> cint) list \<Rightarrow> error + permutation_problem" where
  "swap_all P [] = Inr P"
| "swap_all P ((i, j) # ws) =
     (case swap P i j of Inl e \<Rightarrow> Inl e | Inr P' \<Rightarrow> swap_all P' ws)"

text \<open>The number of positions at which two vectors of the same length differ.\<close>

definition positions_changed :: "cint list \<Rightarrow> cint list \<Rightarrow> nat" where
  "positions_changed xs ys = length (filter (\<lambda>k. xs ! k \<noteq> ys ! k) [0..<length xs])"


text \<open>
  What the model asks of the random source, for the bound \<open>b\<close> the code passes: every
  draw lies in \<open>[0, b)\<close>, and from no state do the draws repeat one value forever.
\<close>

definition draws_in_range :: "('g \<Rightarrow> cint \<Rightarrow> cint \<times> 'g) \<Rightarrow> cint \<Rightarrow> bool" where
  "draws_in_range int_range b \<longleftrightarrow>
     (\<forall>rng. 0 \<le>s fst (int_range rng b) \<and> fst (int_range rng b) <s b)"

definition redraws_end :: "('g \<Rightarrow> cint \<Rightarrow> cint \<times> 'g) \<Rightarrow> cint \<Rightarrow> bool" where
  "redraws_end int_range b \<longleftrightarrow>
     (\<forall>rng v. \<exists>k. fst (int_range (((\<lambda>r. snd (int_range r b)) ^^ k) rng) b) \<noteq> v)"

text \<open>An \<open>int\<close> that is an index of a vector of length \<open>n\<close>.\<close>

definition in_bounds :: "nat \<Rightarrow> cint \<Rightarrow> bool" where
  "in_bounds n i \<longleftrightarrow> 0 \<le>s i \<and> sint i < int n"


text \<open>Two sources for concrete runs: one goes round the range, one always draws 0.\<close>

definition counter_source :: "nat \<Rightarrow> cint \<Rightarrow> cint \<times> nat" where
  "counter_source rng b = (of_nat (rng mod nat (sint b)), Suc rng)"

definition zero_source :: "unit \<Rightarrow> cint \<Rightarrow> cint \<times> unit" where
  "zero_source rng b = (0, rng)"

section \<open>Auxiliary facts\<close>

subsection \<open>Signed integers and indices\<close>

lemma sint_inj: "sint a = sint b \<Longrightarrow> a = b" for a b :: cint
  by (rule signed_word_eqI)

lemma sint_of_nat_le: "sint (of_nat n :: cint) \<le> int n"
  by (simp add: signed_of_nat signed_take_bit_int_less_eq_self_iff)

lemma sint_of_nat_small: "n < 2 ^ 31 \<Longrightarrow> sint (of_nat n :: cint) = int n"
  by (simp add: signed_of_nat signed_take_bit_int_eq_self)

lemma index_of_nonneg:
  assumes "0 \<le>s i"
  shows "index_of i = nat (sint i)"
proof -
  have lo: "0 \<le> sint i" using assms by (simp add: word_sle_eq)
  have "sint i < 2 ^ 31" using sint_lt [of i] by simp
  then have hi: "sint i < 2 ^ 64" by simp
  have "uint (scast i :: size_t) = uint (word_of_int (sint i) :: size_t)"
    by (simp only: scast_eq [of i])
  also have "\<dots> = take_bit 64 (sint i)"
    by (simp only: uint_word_of_int_eq) simp
  also have "\<dots> = sint i"
    using lo hi by (simp add: take_bit_int_eq_self)
  finally have "nat (uint (scast i :: size_t)) = nat (sint i)"
    by (simp only:)
  then show ?thesis by (simp add: index_of_def)
qed

lemma in_bounds_index:
  assumes "in_bounds n i"
  shows "index_of i < n"
proof -
  from assms have nonneg: "0 \<le>s i" and less: "sint i < int n"
    by (simp_all add: in_bounds_def)
  from nonneg have "0 \<le> sint i" by (simp add: word_sle_eq)
  with less have "nat (sint i) < n" by simp
  with index_of_nonneg [OF nonneg] show ?thesis by simp
qed

subsection \<open>std::min and std::max\<close>

lemma std_min_comm: "std_min a b = std_min b a"
  by (auto simp: std_min_def word_sless_alt dest: sint_inj sint_inj [OF sym])

lemma std_max_comm: "std_max a b = std_max b a"
  by (auto simp: std_max_def word_sless_alt dest: sint_inj sint_inj [OF sym])

lemma sint_std_min: "sint (std_min a b) = min (sint a) (sint b)"
  by (auto simp: std_min_def word_sless_alt min_def)

lemma sint_std_max: "sint (std_max a b) = max (sint a) (sint b)"
  by (auto simp: std_max_def word_sless_alt max_def)

lemma std_min_le_std_max: "std_min a b \<le>s std_max a b"
  by (auto simp: std_min_def std_max_def word_sless_alt word_sle_eq)

lemma std_min_cases: "std_min a b = a \<or> std_min a b = b"
  by (simp add: std_min_def)

lemma std_max_cases: "std_max a b = a \<or> std_max a b = b"
  by (simp add: std_max_def)

lemma std_min_neq_std_max: "a \<noteq> b \<Longrightarrow> std_min a b \<noteq> std_max a b"
  by (auto simp: std_min_def std_max_def word_sless_alt dest: sint_inj sint_inj [OF sym])

text \<open>The two moves of the spec's scenario: the hash of both is \<open>(2 << 16) ^ 5\<close>.\<close>

lemma swap_elements_hash_example:
  "hash (swap_elements_init 2 5) = 131077 \<and> hash (swap_elements_init 5 2) = 131077"
  by (simp add: swap_elements_init_def hash_def std_min_def std_max_def word_sless_alt)

subsection \<open>The constructor of permutation_problem\<close>

lemma generate_from:
  "generate xs \<lparr>value_m = s\<rparr> = map (\<lambda>k. s + of_nat k) [0..<length xs]"
proof (induction xs arbitrary: s)
  case Nil
  then show ?case by simp
next
  case (Cons x xs)
  have "map (\<lambda>k. s + of_nat k) [0..<Suc (length xs)]
          = s # map (\<lambda>k. s + 1 + of_nat k) [0..<length xs]"
    by (simp add: upt_conv_Cons map_Suc_upt [symmetric] add.assoc del: upt_Suc)
  with Cons show ?case by (simp add: sequence_call_def)
qed

lemma permutation_problem_init_4:
  "permutation_problem_init 4 = Inr \<lparr>pi_m = [0, 1, 2, 3]\<rparr>"
  by (simp add: permutation_problem_init_def sequence_init_def sequence_call_def
      numeral_eq_Suc word_sless_alt)

subsection \<open>swap\<close>

lemma swap_in_range:
  "index_of i < length (pi_m P) \<Longrightarrow> index_of j < length (pi_m P) \<Longrightarrow>
   swap P i j = Inr (P\<lparr>pi_m := (pi_m P)[index_of i := pi_m P ! index_of j,
                                      index_of j := pi_m P ! index_of i]\<rparr>)"
  by (simp add: swap_def)

lemma swap_Inr_length: "swap P i j = Inr P' \<Longrightarrow> length (pi_m P') = length (pi_m P)"
  by (auto simp: swap_def split: if_splits)

lemma swap_Inr_mset: "swap P i j = Inr P' \<Longrightarrow> mset (pi_m P') = mset (pi_m P)"
  by (auto simp: swap_def mset_swap split: if_splits)

lemma is_permutation_length: "is_permutation n P \<Longrightarrow> length (pi_m P) = n"
  by (metis is_permutation_def size_mset length_map length_upt diff_zero)

lemma swap_twice_list:
  "i < length xs \<Longrightarrow> j < length xs \<Longrightarrow>
   (xs[i := xs ! j, j := xs ! i])
     [i := xs[i := xs ! j, j := xs ! i] ! j, j := xs[i := xs ! j, j := xs ! i] ! i] = xs"
  by (auto simp: list_eq_iff_nth_eq nth_list_update)

lemma swap_twice:
  assumes "index_of i < length (pi_m P)" "index_of j < length (pi_m P)"
  shows "\<exists>P'. swap P i j = Inr P' \<and> swap P' i j = Inr P"
proof -
  define ys where "ys = (pi_m P)[index_of i := pi_m P ! index_of j,
                                 index_of j := pi_m P ! index_of i]"
  have undo: "ys[index_of i := ys ! index_of j, index_of j := ys ! index_of i] = pi_m P"
    unfolding ys_def by (rule swap_twice_list [OF assms])
  have len: "length ys = length (pi_m P)" by (simp add: ys_def)
  have 1: "swap P i j = Inr (P\<lparr>pi_m := ys\<rparr>)"
    unfolding ys_def by (rule swap_in_range [OF assms])
  have "swap (P\<lparr>pi_m := ys\<rparr>) i j = Inr P"
    using assms len undo by (simp add: swap_def)
  with 1 show ?thesis by blast
qed

subsection \<open>Positions that differ\<close>

lemma positions_changed_card:
  "positions_changed xs ys = card {k. k < length xs \<and> xs ! k \<noteq> ys ! k}"
proof -
  have "{i. i < length xs \<and> xs ! ([0..<length xs] ! i) \<noteq> ys ! ([0..<length xs] ! i)}
        = {k. k < length xs \<and> xs ! k \<noteq> ys ! k}"
    by auto
  then show ?thesis
    by (simp add: positions_changed_def length_filter_conv_card)
qed

lemma positions_changed_same: "positions_changed xs xs = 0"
  by (simp add: positions_changed_def)

lemma positions_changed_trans:
  assumes "length ys = length xs"
  shows "positions_changed xs zs \<le> positions_changed xs ys + positions_changed ys zs"
proof -
  let ?A = "{k. k < length xs \<and> xs ! k \<noteq> ys ! k}"
  let ?B = "{k. k < length xs \<and> ys ! k \<noteq> zs ! k}"
  have "{k. k < length xs \<and> xs ! k \<noteq> zs ! k} \<subseteq> ?A \<union> ?B" by auto
  then have "card {k. k < length xs \<and> xs ! k \<noteq> zs ! k} \<le> card (?A \<union> ?B)"
    by (intro card_mono) auto
  also have "\<dots> \<le> card ?A + card ?B" by (rule card_Un_le)
  finally show ?thesis using assms by (simp add: positions_changed_card)
qed

lemma positions_changed_swap:
  assumes "swap P i j = Inr P'"
  shows "positions_changed (pi_m P) (pi_m P') \<le> 2"
proof -
  from assms have P': "pi_m P' = (pi_m P)[index_of i := pi_m P ! index_of j,
                                         index_of j := pi_m P ! index_of i]"
    by (auto simp: swap_def split: if_splits)
  have same: "pi_m P' ! k = pi_m P ! k" if "k \<noteq> index_of i" "k \<noteq> index_of j" for k
    using that by (simp add: P')
  have "{k. k < length (pi_m P) \<and> pi_m P ! k \<noteq> pi_m P' ! k} \<subseteq> {index_of i, index_of j}"
    using same by fastforce
  then have "card {k. k < length (pi_m P) \<and> pi_m P ! k \<noteq> pi_m P' ! k}
               \<le> card {index_of i, index_of j}"
    by (intro card_mono) auto
  also have "\<dots> \<le> 2" by (simp add: card_insert_if)
  finally show ?thesis by (simp add: positions_changed_card)
qed

subsection \<open>The re-drawing loop\<close>

text \<open>With the source that always draws 0, and 0 as first index, the loop never ends.\<close>

lemma redraw_zero_source_never:
  assumes "redraw int_range b v w rng = Some y"
  shows "int_range = zero_source \<and> v = 0 \<and> w = 0 \<longrightarrow> False"
proof (rule redraw.raw_induct
        [where P = "\<lambda>ir b v w rng y. ir = zero_source \<and> v = 0 \<and> w = 0 \<longrightarrow> False", OF _ assms],
       intro impI, elim conjE)
  fix f :: "(unit \<Rightarrow> cint \<Rightarrow> cint \<times> unit) \<Rightarrow> cint \<Rightarrow> cint \<Rightarrow> cint \<Rightarrow> unit \<Rightarrow> (cint \<times> unit) option"
  fix ir sz and q1 q2 :: cint and r :: unit and res
  assume IH: "\<And>a b c d e y. f a b c d e = Some y \<Longrightarrow> a = zero_source \<and> c = 0 \<and> d = 0 \<longrightarrow> False"
    and body: "(if q1 = q2 then case ir r sz of (p2', rng') \<Rightarrow> f ir sz q1 p2' rng'
               else Some (q2, r)) = Some res"
    and src: "ir = zero_source" "q1 = 0" "q2 = 0"
  from body src have "f zero_source sz 0 0 r = Some res"
    by (simp add: zero_source_def)
  from IH [OF this] show False by simp
qed

lemma redraw_zero_source: "redraw zero_source b 0 0 rng = None"
  using redraw_zero_source_never [of zero_source b 0 0 rng]
  by (cases "redraw zero_source b 0 0 rng") auto

text \<open>When some later draw differs from the first index, the loop returns such a draw.\<close>

lemma redraw_returns_aux:
  "fst (int_range (((\<lambda>r. snd (int_range r b)) ^^ k) rng) b) \<noteq> v \<Longrightarrow>
   \<exists>q rng'. redraw int_range b v w rng = Some (q, rng') \<and> q \<noteq> v
     \<and> (q = w \<or> (\<exists>r. q = fst (int_range r b)))"
proof (induction k arbitrary: w rng)
  case 0
  show ?case
  proof (cases "v = w")
    case False
    then show ?thesis by (subst redraw.simps) simp
  next
    case True
    obtain q r' where d: "int_range rng b = (q, r')" by (cases "int_range rng b")
    with 0 have "q \<noteq> v" by simp
    then have "redraw int_range b v q r' = Some (q, r')" by (subst redraw.simps) simp
    with True d \<open>q \<noteq> v\<close> show ?thesis
      by (subst redraw.simps) (auto intro: exI [of _ rng])
  qed
next
  case (Suc k)
  show ?case
  proof (cases "v = w")
    case False
    then show ?thesis by (subst redraw.simps) simp
  next
    case True
    obtain q r' where d: "int_range rng b = (q, r')" by (cases "int_range rng b")
    from Suc.prems have "fst (int_range (((\<lambda>r. snd (int_range r b)) ^^ k) r') b) \<noteq> v"
      using d by (simp add: funpow_Suc_right del: funpow.simps)
    from Suc.IH [OF this, of q] obtain q' rng' where
      "redraw int_range b v q r' = Some (q', rng')" "q' \<noteq> v"
      "q' = q \<or> (\<exists>r. q' = fst (int_range r b))"
      by blast
    with True d show ?thesis
      by (subst redraw.simps) (auto intro: exI [of _ rng])
  qed
qed

lemma redraw_returns:
  assumes "redraws_end int_range b"
  shows "\<exists>q rng'. redraw int_range b v w rng = Some (q, rng') \<and> q \<noteq> v
           \<and> (q = w \<or> (\<exists>r. q = fst (int_range r b)))"
proof -
  from assms obtain k where "fst (int_range (((\<lambda>r. snd (int_range r b)) ^^ k) rng) b) \<noteq> v"
    unfolding redraws_end_def by blast
  then show ?thesis by (rule redraw_returns_aux)
qed

lemma draw_in_bounds:
  assumes "draws_in_range int_range (of_nat n)"
  shows "in_bounds n (fst (int_range rng (of_nat n)))"
proof -
  let ?d = "fst (int_range rng (of_nat n))"
  from assms have lo: "0 \<le>s ?d" and hi: "?d <s of_nat n"
    by (simp_all add: draws_in_range_def)
  from hi have "sint ?d < sint (of_nat n :: cint)" by (simp add: word_sless_alt)
  also have "\<dots> \<le> int n" by (rule sint_of_nat_le)
  finally show ?thesis using lo by (simp add: in_bounds_def)
qed

subsection \<open>The source that goes round the range\<close>

lemma counter_source_small:
  fixes b :: cint
  assumes "0 < sint b"
  shows "k mod nat (sint b) < 2 ^ 31"
proof -
  have hi: "sint b < 2 ^ 31" using sint_lt [of b] by simp
  have "k mod nat (sint b) < nat (sint b)" using assms by simp
  also have "\<dots> < 2 ^ 31" using hi assms by (simp add: nat_less_iff)
  finally show ?thesis .
qed

lemma counter_source_in_range:
  assumes "0 <s b"
  shows "draws_in_range counter_source b"
proof -
  from assms have pos: "0 < sint b" by (simp add: word_sless_alt)
  have "sint (of_nat (rng mod nat (sint b)) :: cint) = int (rng mod nat (sint b))" for rng
    by (rule sint_of_nat_small [OF counter_source_small [OF pos]])
  moreover have "int (rng mod nat (sint b)) < sint b" for rng
    using pos by (simp add: zmod_int)
  ultimately show ?thesis
    by (simp add: draws_in_range_def counter_source_def word_sle_eq word_sless_alt)
qed

lemma counter_source_redraws_end:
  assumes "1 <s b"
  shows "redraws_end counter_source b"
  unfolding redraws_end_def
proof (intro allI)
  fix rng :: nat and v :: cint
  from assms have big: "1 < sint b" by (simp add: word_sless_alt)
  then have pos: "0 < sint b" by simp
  let ?m = "nat (sint b)"
  have nxt: "snd (counter_source r b) = Suc r" for r by (simp add: counter_source_def)
  have m: "1 < ?m" using big by simp
  have "Suc rng mod ?m \<noteq> rng mod ?m"
  proof
    assume eq: "Suc rng mod ?m = rng mod ?m"
    have "Suc rng mod ?m = (if Suc (rng mod ?m) = ?m then 0 else Suc (rng mod ?m))"
      by (rule mod_Suc)
    with eq m show False by (auto split: if_splits)
  qed
  then have "int (Suc rng mod ?m) \<noteq> int (rng mod ?m)" by simp
  then have "sint (of_nat (Suc rng mod ?m) :: cint) \<noteq> sint (of_nat (rng mod ?m) :: cint)"
    by (simp add: sint_of_nat_small [OF counter_source_small [OF pos]])
  then have diff: "fst (counter_source (Suc rng) b) \<noteq> fst (counter_source rng b)"
    by (auto simp: counter_source_def)
  show "\<exists>k. fst (counter_source (((\<lambda>r. snd (counter_source r b)) ^^ k) rng) b) \<noteq> v"
  proof (cases "fst (counter_source rng b) = v")
    case False
    then show ?thesis by (intro exI [of _ 0]) simp
  next
    case True
    with diff show ?thesis by (intro exI [of _ 1]) (simp add: nxt)
  qed
qed

subsection \<open>One round of perturbate, and all of them\<close>

lemma perturbate_round:
  assumes rng: "draws_in_range int_range (size_as_int P)"
    and ends: "redraws_end int_range (size_as_int P)"
  shows "\<exists>a b P1 rng1. a \<noteq> b \<and> swap P a b = Inr P1
           \<and> perturbate int_range P (Suc k) rng0 = perturbate int_range P1 k rng1"
proof -
  let ?b = "size_as_int P"
  have b: "?b = of_nat (size_pp P)" by (simp add: size_as_int_def)
  obtain a r1 where d1: "int_range rng0 ?b = (a, r1)" by (cases "int_range rng0 ?b")
  obtain c r2 where d2: "int_range r1 ?b = (c, r2)" by (cases "int_range r1 ?b")
  from redraw_returns [OF ends, of a c r2] obtain q r3 where
    rd: "redraw int_range ?b a c r2 = Some (q, r3)" and ne: "q \<noteq> a"
    and src: "q = c \<or> (\<exists>r. q = fst (int_range r ?b))" by blast
  have ba: "in_bounds (size_pp P) a"
    using draw_in_bounds [of int_range "size_pp P" rng0] rng d1 by (simp add: b)
  have bc: "in_bounds (size_pp P) c"
    using draw_in_bounds [of int_range "size_pp P" r1] rng d2 by (simp add: b)
  have bq: "in_bounds (size_pp P) q"
    using src bc draw_in_bounds [of int_range "size_pp P"] rng by (auto simp: b)
  from ba bq have "swap P a q = Inr (P\<lparr>pi_m := (pi_m P)[index_of a := pi_m P ! index_of q,
                                                       index_of q := pi_m P ! index_of a]\<rparr>)"
    by (intro swap_in_range) (simp_all add: in_bounds_index [unfolded size_pp_def] size_pp_def)
  with d1 d2 rd ne show ?thesis
    by (intro exI [of _ a] exI [of _ q]) auto
qed

lemma perturbate_runs:
  assumes "draws_in_range int_range (size_as_int P)"
    and "redraws_end int_range (size_as_int P)"
  shows "\<exists>P' rng' ws. perturbate int_range P k rng = Some (Inr (P', rng'))
           \<and> length ws = k \<and> (\<forall>(i, j) \<in> set ws. i \<noteq> j) \<and> swap_all P ws = Inr P'
           \<and> mset (pi_m P') = mset (pi_m P) \<and> length (pi_m P') = length (pi_m P)
           \<and> positions_changed (pi_m P) (pi_m P') \<le> 2 * k"
  using assms
proof (induction k arbitrary: P rng)
  case 0
  show ?case
    by (rule exI [of _ P], rule exI [of _ rng], rule exI [of _ "[]"])
       (simp add: positions_changed_same)
next
  case (Suc k)
  from perturbate_round [OF Suc.prems, of k rng] obtain a b P1 rng1 where
    ne: "a \<noteq> b" and sw: "swap P a b = Inr P1"
    and step: "perturbate int_range P (Suc k) rng = perturbate int_range P1 k rng1"
    by blast
  have len1: "length (pi_m P1) = length (pi_m P)" by (rule swap_Inr_length [OF sw])
  then have sz: "size_as_int P1 = size_as_int P" by (simp add: size_as_int_def size_pp_def)
  from Suc.IH [of P1 rng1] Suc.prems sz obtain P' rng' ws where
    run: "perturbate int_range P1 k rng1 = Some (Inr (P', rng'))"
    and ws: "length ws = k" "\<forall>(i, j) \<in> set ws. i \<noteq> j" "swap_all P1 ws = Inr P'"
    and ms: "mset (pi_m P') = mset (pi_m P1)" and len: "length (pi_m P') = length (pi_m P1)"
    and ch: "positions_changed (pi_m P1) (pi_m P') \<le> 2 * k"
    by auto
  have "positions_changed (pi_m P) (pi_m P') \<le>
          positions_changed (pi_m P) (pi_m P1) + positions_changed (pi_m P1) (pi_m P')"
    by (rule positions_changed_trans [OF len1])
  with positions_changed_swap [OF sw] ch
  have ch': "positions_changed (pi_m P) (pi_m P') \<le> 2 * Suc k" by simp
  show ?case
    by (rule exI [of _ P'], rule exI [of _ rng'], rule exI [of _ "(a, b) # ws"])
       (use step run ws ne sw ms len len1 ch' swap_Inr_mset [OF sw] in simp)
qed

lemma perturbate_example:
  "perturbate counter_source \<lparr>pi_m = [0, 1, 2, 3]\<rparr> (Suc (Suc 0)) 0
     = Some (Inr (\<lparr>pi_m = [1, 0, 3, 2]\<rparr>, 4))"
  by (simp add: size_as_int_def size_pp_def counter_source_def redraw.simps swap_def index_of_def)

subsection \<open>Randomizing the moves of a neighborhood\<close>

lemma randomize_move_returns:
  assumes rng: "draws_in_range int_range (of_nat sz)"
    and ends: "redraws_end int_range (of_nat sz)"
  shows "\<exists>m' rng'. randomize_move int_range m sz rng0 = Some (m', rng')
           \<and> p1 m' \<noteq> p2 m' \<and> p1 m' \<le>s p2 m'
           \<and> in_bounds sz (p1 m') \<and> in_bounds sz (p2 m')"
proof -
  let ?b = "of_nat sz :: cint"
  obtain i r1 where d1: "int_range rng0 ?b = (i, r1)" by (cases "int_range rng0 ?b")
  obtain j r2 where d2: "int_range r1 ?b = (j, r2)" by (cases "int_range r1 ?b")
  from redraw_returns [OF ends, of i j r2] obtain q r3 where
    rd: "redraw int_range ?b i j r2 = Some (q, r3)" and ne: "q \<noteq> i"
    and src: "q = j \<or> (\<exists>r. q = fst (int_range r ?b))" by blast
  have bi: "in_bounds sz i" using draw_in_bounds [OF rng, of rng0] d1 by simp
  have bj: "in_bounds sz j" using draw_in_bounds [OF rng, of r1] d2 by simp
  have bq: "in_bounds sz q" using src bj draw_in_bounds [OF rng] by auto
  have run: "randomize_move int_range m sz rng0 = Some (change m i q, r3)"
    by (simp add: randomize_move_def d1 d2 rd)
  have "p1 (change m i q) \<noteq> p2 (change m i q)"
    using ne by (simp add: change_def std_min_neq_std_max)
  moreover have "p1 (change m i q) \<le>s p2 (change m i q)"
    by (simp add: change_def std_min_le_std_max)
  moreover have "in_bounds sz (p1 (change m i q))"
    using std_min_cases [of i q] bi bq by (auto simp: change_def)
  moreover have "in_bounds sz (p2 (change m i q))"
    using std_max_cases [of i q] bi bq by (auto simp: change_def)
  ultimately show ?thesis using run by simp
qed

lemma randomize_moves_returns:
  assumes "draws_in_range int_range (of_nat sz)"
    and "redraws_end int_range (of_nat sz)"
  shows "\<exists>ms' rng'. randomize_moves int_range ms sz rng0 = Some (ms', rng')
           \<and> length ms' = length ms
           \<and> (\<forall>mv \<in> set ms'. p1 mv \<noteq> p2 mv \<and> p1 mv \<le>s p2 mv
                  \<and> in_bounds sz (p1 mv) \<and> in_bounds sz (p2 mv))"
proof (induction ms arbitrary: rng0)
  case Nil
  show ?case by simp
next
  case (Cons m ms)
  from randomize_move_returns [OF assms, of m rng0] obtain m' r1 where
    1: "randomize_move int_range m sz rng0 = Some (m', r1)"
    and ok: "p1 m' \<noteq> p2 m'" "p1 m' \<le>s p2 m'" "in_bounds sz (p1 m')" "in_bounds sz (p2 m')"
    by blast
  from Cons.IH [of r1] obtain ms' r2 where
    2: "randomize_moves int_range ms sz r1 = Some (ms', r2)" "length ms' = length ms"
    and oks: "\<forall>mv \<in> set ms'. p1 mv \<noteq> p2 mv \<and> p1 mv \<le>s p2 mv
                \<and> in_bounds sz (p1 mv) \<and> in_bounds sz (p2 mv)"
    by blast
  show ?case using 1 2 ok oks by simp
qed

lemma length_resize_moves: "length (resize_moves m ms) = m"
  by (simp add: resize_moves_def)

subsection \<open>The recorder\<close>







section \<open>The claims\<close>

text \<open>
  C1. The claim: the step codes MOVE_MADE and IMPROVEMENT_MADE are distinct integers, so
  that an observer reading \<open>step()\<close> can tell a plain move from an improvement. The
  source gives both constants the value 0: a search that publishes IMPROVEMENT_MADE is
  read back as MOVE_MADE.
\<close>

theorem step_codes_coincide:
  "IMPROVEMENT_MADE = MOVE_MADE
   \<and> step (abstract_search_init w r mm\<lparr>step_m := IMPROVEMENT_MADE\<rparr>) = MOVE_MADE"
  by (simp add: IMPROVEMENT_MADE_def MOVE_MADE_def step_def)

text \<open>
  C2. For all integers \<open>a\<close> and \<open>b\<close>, the moves \<open>swap_elements(a, b)\<close> and
  \<open>swap_elements(b, a)\<close> compare equal and have the same hash: the constructor stores
  the smaller argument in \<open>p1\<close> and the larger in \<open>p2\<close>, and the hash is
  \<open>(p1 << 16) ^ p2\<close> of that pair.
\<close>

theorem swap_elements_symmetric:
  "swap_elements_eq (swap_elements_init a b) (swap_elements_init b a)
   \<and> hash (swap_elements_init a b) = hash (swap_elements_init b a)
   \<and> sint (p1 (swap_elements_init a b)) = min (sint a) (sint b)
   \<and> sint (p2 (swap_elements_init a b)) = max (sint a) (sint b)
   \<and> hash (swap_elements_init a b)
       = scast (push_bit 16 (p1 (swap_elements_init a b)) XOR p2 (swap_elements_init a b))"
proof -
  have same: "swap_elements_init a b = swap_elements_init b a"
    by (simp add: swap_elements_init_def std_min_comm [of a b] std_max_comm [of a b])
  have eq: "swap_elements_eq (swap_elements_init a b) (swap_elements_init b a)"
    by (simp only: same) (simp add: swap_elements_eq_def)
  have h: "hash (swap_elements_init a b) = hash (swap_elements_init b a)"
    by (simp only: same)
  have canon: "sint (p1 (swap_elements_init a b)) = min (sint a) (sint b)
               \<and> sint (p2 (swap_elements_init a b)) = max (sint a) (sint b)"
    by (simp add: swap_elements_init_def sint_std_min sint_std_max)
  have "hash (swap_elements_init a b)
          = scast (push_bit 16 (p1 (swap_elements_init a b)) XOR p2 (swap_elements_init a b))"
    by (simp add: hash_def)
  with eq h canon show ?thesis by blast
qed




text \<open>
  C4. For every solution \<open>S\<close> of size at least 2 and every swap neighborhood with move
  count \<open>m\<close>, whose random source draws within the bound it is given and does not
  repeat one value forever: \<open>refresh(S)\<close> returns, the neighborhood then holds exactly
  \<open>m\<close> moves, and every move holds a canonical pair, \<open>p1 \<le> p2\<close>, with
  \<open>p1 \<noteq> p2\<close> and both indices of \<open>S\<close>.
\<close>

theorem refresh_neighborhood:
  assumes "2 \<le> size_pp S"
    and "draws_in_range int_range (size_as_int S)"
    and "redraws_end int_range (size_as_int S)"
    and "n_moves nb = m"
  shows "\<exists>nb'. refresh int_range nb S = Some nb' \<and> size_mm nb' = m \<and> n_moves nb' = m
           \<and> (\<forall>mv \<in> set (moves_m nb').
                 p1 mv \<noteq> p2 mv \<and> p1 mv \<le>s p2 mv
                 \<and> 0 \<le>s p1 mv \<and> sint (p1 mv) < int (size_pp S)
                 \<and> 0 \<le>s p2 mv \<and> sint (p2 mv) < int (size_pp S))"
proof -
  have src: "draws_in_range int_range (of_nat (size_pp S))"
    "redraws_end int_range (of_nat (size_pp S))"
    using assms(2,3) by (simp_all add: size_as_int_def)
  from randomize_moves_returns
         [OF src, of "resize_moves (n_moves nb) (moves_m nb)" "rng_m nb"]
  obtain ms' rng' where
    run: "randomize_moves int_range (resize_moves (n_moves nb) (moves_m nb)) (size_pp S) (rng_m nb)
            = Some (ms', rng')"
    and len: "length ms' = length (resize_moves (n_moves nb) (moves_m nb))"
    and ok: "\<forall>mv \<in> set ms'. p1 mv \<noteq> p2 mv \<and> p1 mv \<le>s p2 mv
               \<and> in_bounds (size_pp S) (p1 mv) \<and> in_bounds (size_pp S) (p2 mv)"
    by blast
  show ?thesis
    using run len ok assms(4)
    by (simp add: refresh_def size_mm_def length_resize_moves in_bounds_def)
qed

text \<open>A neighborhood of 5 moves, just constructed, refreshed against a solution of size 4.\<close>

theorem refresh_neighborhood_witness:
  "2 \<le> size_pp \<lparr>pi_m = [0, 1, 2, 3]\<rparr>
   \<and> draws_in_range counter_source (size_as_int \<lparr>pi_m = [0, 1, 2, 3]\<rparr>)
   \<and> redraws_end counter_source (size_as_int \<lparr>pi_m = [0, 1, 2, 3]\<rparr>)
   \<and> n_moves (swap_neighborhood_init (0::nat) 5) = 5
   \<and> (\<exists>nb'. refresh counter_source (swap_neighborhood_init 0 5) \<lparr>pi_m = [0, 1, 2, 3]\<rparr> = Some nb'
         \<and> size_mm nb' = 5 \<and> n_moves nb' = 5
         \<and> (\<forall>mv \<in> set (moves_m nb').
                 p1 mv \<noteq> p2 mv \<and> p1 mv \<le>s p2 mv
                 \<and> 0 \<le>s p1 mv \<and> sint (p1 mv) < int (size_pp \<lparr>pi_m = [0, 1, 2, 3]\<rparr>)
                 \<and> 0 \<le>s p2 mv \<and> sint (p2 mv) < int (size_pp \<lparr>pi_m = [0, 1, 2, 3]\<rparr>)))"
proof -
  have sz: "size_as_int \<lparr>pi_m = [0, 1, 2, 3]\<rparr> = 4" by (simp add: size_as_int_def size_pp_def)
  have h1: "2 \<le> size_pp \<lparr>pi_m = [0, 1, 2, 3]\<rparr>" by (simp add: size_pp_def)
  have h2: "draws_in_range counter_source (size_as_int \<lparr>pi_m = [0, 1, 2, 3]\<rparr>)"
    unfolding sz by (rule counter_source_in_range) (simp add: word_sless_alt)
  have h3: "redraws_end counter_source (size_as_int \<lparr>pi_m = [0, 1, 2, 3]\<rparr>)"
    unfolding sz by (rule counter_source_redraws_end) (simp add: word_sless_alt)
  have h4: "n_moves (swap_neighborhood_init (0::nat) 5) = 5"
    by (simp add: swap_neighborhood_init_def)
  show ?thesis using h1 h2 h3 h4 refresh_neighborhood [OF h1 h2 h3 h4] by simp
qed

text \<open>
  C5, as amended. For every permutation problem \<open>P\<close> whose vector is a permutation of
  \<open>0, ..., n - 1\<close> with \<open>n \<ge> 2\<close>, every \<open>k\<close> and every random source that draws within
  the bound it is given and does not repeat one value forever: \<open>perturbate\<close> returns; it
  has made exactly \<open>k\<close> swaps \<open>ws\<close>, each with two distinct indices; the vector is
  still a permutation of \<open>0, ..., n - 1\<close>, and at most \<open>2 k\<close> of its positions differ
  from before the call.
\<close>

theorem perturbate_permutation:
  assumes "is_permutation n P" and "2 \<le> n"
    and "draws_in_range int_range (size_as_int P)"
    and "redraws_end int_range (size_as_int P)"
  shows "\<exists>P' rng' ws. perturbate int_range P k rng = Some (Inr (P', rng'))
           \<and> length ws = k \<and> (\<forall>(i, j) \<in> set ws. i \<noteq> j) \<and> swap_all P ws = Inr P'
           \<and> is_permutation n P'
           \<and> positions_changed (pi_m P) (pi_m P') \<le> 2 * k"
proof -
  from perturbate_runs [OF assms(3,4), of k rng] obtain P' rng' ws where
    "perturbate int_range P k rng = Some (Inr (P', rng'))"
    "length ws = k" "\<forall>(i, j) \<in> set ws. i \<noteq> j" "swap_all P ws = Inr P'"
    "mset (pi_m P') = mset (pi_m P)"
    "positions_changed (pi_m P) (pi_m P') \<le> 2 * k"
    by blast
  with assms(1) show ?thesis
    by (intro exI [of _ P'] exI [of _ rng'] exI [of _ ws]) (simp add: is_permutation_def)
qed

theorem perturbate_permutation_witness:
  "is_permutation 4 \<lparr>pi_m = [0, 1, 2, 3]\<rparr> \<and> (2::nat) \<le> 4
   \<and> draws_in_range counter_source (size_as_int \<lparr>pi_m = [0, 1, 2, 3]\<rparr>)
   \<and> redraws_end counter_source (size_as_int \<lparr>pi_m = [0, 1, 2, 3]\<rparr>)
   \<and> (\<exists>P' rng' ws. perturbate counter_source \<lparr>pi_m = [0, 1, 2, 3]\<rparr> 2 0 = Some (Inr (P', rng'))
         \<and> length ws = 2 \<and> (\<forall>(i, j) \<in> set ws. i \<noteq> j) \<and> swap_all \<lparr>pi_m = [0, 1, 2, 3]\<rparr> ws = Inr P'
         \<and> is_permutation 4 P'
         \<and> positions_changed (pi_m \<lparr>pi_m = [0, 1, 2, 3]\<rparr>) (pi_m P') \<le> 2 * 2)"
proof -
  have sz: "size_as_int \<lparr>pi_m = [0, 1, 2, 3]\<rparr> = 4" by (simp add: size_as_int_def size_pp_def)
  have h1: "is_permutation 4 \<lparr>pi_m = [0, 1, 2, 3]\<rparr>" by (simp add: is_permutation_def upt_rec)
  have h2: "(2::nat) \<le> 4" by simp
  have h3: "draws_in_range counter_source (size_as_int \<lparr>pi_m = [0, 1, 2, 3]\<rparr>)"
    unfolding sz by (rule counter_source_in_range) (simp add: word_sless_alt)
  have h4: "redraws_end counter_source (size_as_int \<lparr>pi_m = [0, 1, 2, 3]\<rparr>)"
    unfolding sz by (rule counter_source_redraws_end) (simp add: word_sless_alt)
  show ?thesis using h1 h2 h3 h4 perturbate_permutation [OF h1 h2 h3 h4, of 2 0] by simp
qed

text \<open>
  C5 as it is stated, for every permutation problem and every \<open>k\<close>, fails on a problem of
  size 1: the vector \<open>[0]\<close> is a permutation of \<open>{0}\<close>, every draw in \<open>[0, 1)\<close> is 0,
  and with \<open>k = 1\<close> the second index is re-drawn forever, so that \<open>perturbate\<close> does
  not return.
\<close>

theorem perturbate_size_one_never_returns:
  "is_permutation 1 \<lparr>pi_m = [0]\<rparr>
   \<and> draws_in_range zero_source (size_as_int \<lparr>pi_m = [0]\<rparr>)
   \<and> perturbate zero_source \<lparr>pi_m = [0]\<rparr> 1 () = None"
  by (simp add: is_permutation_def draws_in_range_def zero_source_def [of _ 1]
      size_as_int_def size_pp_def word_sle_eq word_sless_alt redraw_zero_source)

text \<open>
  C6. For every permutation problem \<open>P\<close> whose vector is a permutation of
  \<open>0, ..., n - 1\<close> and all indices \<open>i\<close> and \<open>j\<close> in \<open>[0, n)\<close>: \<open>P.swap(i, j)\<close>
  returns, and the vector is still a permutation of \<open>0, ..., n - 1\<close>, with the same
  entries as before and the same size.
\<close>

theorem swap_permutation:
  assumes "is_permutation n P"
    and "0 \<le>s i" and "sint i < int n"
    and "0 \<le>s j" and "sint j < int n"
  shows "\<exists>P'. swap P i j = Inr P' \<and> is_permutation n P'
           \<and> mset (pi_m P') = mset (pi_m P) \<and> size_pp P' = n"
proof -
  have len: "length (pi_m P) = n" by (rule is_permutation_length [OF assms(1)])
  have i: "index_of i < length (pi_m P)" and j: "index_of j < length (pi_m P)"
    using assms(2-5) len by (simp_all add: in_bounds_index in_bounds_def)
  show ?thesis
    using assms(1) len i j
    by (simp add: swap_in_range [OF i j] is_permutation_def mset_swap size_pp_def)
qed

theorem swap_permutation_witness:
  "is_permutation 4 \<lparr>pi_m = [0, 1, 2, 3]\<rparr> \<and> (0::cint) \<le>s 1 \<and> sint (1::cint) < int 4
   \<and> (0::cint) \<le>s 3 \<and> sint (3::cint) < int 4
   \<and> (\<exists>P'. swap \<lparr>pi_m = [0, 1, 2, 3]\<rparr> 1 3 = Inr P' \<and> is_permutation 4 P'
         \<and> mset (pi_m P') = mset (pi_m \<lparr>pi_m = [0, 1, 2, 3]\<rparr>) \<and> size_pp P' = 4)"
proof -
  have h1: "is_permutation 4 \<lparr>pi_m = [0, 1, 2, 3]\<rparr>" by (simp add: is_permutation_def upt_rec)
  have h2: "(0::cint) \<le>s 1" and h4: "(0::cint) \<le>s 3" by (simp_all add: word_sle_eq)
  have h3: "sint (1::cint) < int 4" and h5: "sint (3::cint) < int 4" by simp_all
  show ?thesis using h1 h2 h3 h4 h5 swap_permutation [OF h1 h2 h3 h4 h5] by simp
qed

text \<open>
  C7. For every \<open>n \<ge> 0\<close>, \<open>permutation_problem(n)\<close> makes the vector the identity
  \<open>[0, 1, ..., n - 1]\<close>, and \<open>size()\<close> returns \<open>n\<close>.
\<close>

theorem permutation_problem_identity:
  assumes "0 \<le>s n"
  shows "\<exists>P. permutation_problem_init n = Inr P
           \<and> pi_m P = map of_nat [0..<nat (sint n)] \<and> int (size_pp P) = sint n"
  using assms
  by (simp add: permutation_problem_init_def sequence_init_def generate_from size_pp_def
      word_sle_eq word_sless_alt)

theorem permutation_problem_identity_witness:
  "(0::cint) \<le>s 4
   \<and> (\<exists>P. permutation_problem_init 4 = Inr P \<and> pi_m P = [0, 1, 2, 3] \<and> size_pp P = 4)"
proof -
  have h: "(0::cint) \<le>s 4" by (simp add: word_sle_eq)
  show ?thesis
    using h permutation_problem_identity [OF h] by (auto simp: upt_rec)
qed

text \<open>
  C8. On the permutation problem of size 4, which starts as \<open>[0, 1, 2, 3]\<close>, applying
  \<open>swap_elements(1, 3)\<close> gives \<open>[0, 3, 2, 1]\<close>, and applying \<open>swap_elements(3, 1)\<close>
  then gives \<open>[0, 1, 2, 3]\<close> again. For every permutation problem \<open>P\<close> and every move
  made from two indices of \<open>P\<close>, applying the move twice gives \<open>P\<close> back.
\<close>

theorem swap_elements_round_trip:
  "(\<exists>Q0 Q1. permutation_problem_init 4 = Inr Q0 \<and> pi_m Q0 = [0, 1, 2, 3]
      \<and> apply_swap_elements (swap_elements_init 1 3) Q0 = Inr Q1 \<and> pi_m Q1 = [0, 3, 2, 1]
      \<and> apply_swap_elements (swap_elements_init 3 1) Q1 = Inr Q0)
   \<and> (0 \<le>s i \<and> sint i < int (size_pp P) \<and> 0 \<le>s j \<and> sint j < int (size_pp P) \<longrightarrow>
        (\<exists>P'. apply_swap_elements (swap_elements_init i j) P = Inr P'
            \<and> apply_swap_elements (swap_elements_init i j) P' = Inr P))"
proof (intro conjI impI)
  have there: "apply_swap_elements (swap_elements_init 1 3) \<lparr>pi_m = [0, 1, 2, 3]\<rparr> = Inr \<lparr>pi_m = [0, 3, 2, 1]\<rparr>"
    by (simp add: apply_swap_elements_def swap_elements_init_def std_min_def std_max_def
        word_sless_alt swap_def index_of_def)
  have again: "apply_swap_elements (swap_elements_init 3 1) \<lparr>pi_m = [0, 3, 2, 1]\<rparr> = Inr \<lparr>pi_m = [0, 1, 2, 3]\<rparr>"
    by (simp add: apply_swap_elements_def swap_elements_init_def std_min_def std_max_def
        word_sless_alt swap_def index_of_def)
  show "\<exists>Q0 Q1. permutation_problem_init 4 = Inr Q0 \<and> pi_m Q0 = [0, 1, 2, 3]
      \<and> apply_swap_elements (swap_elements_init 1 3) Q0 = Inr Q1 \<and> pi_m Q1 = [0, 3, 2, 1]
      \<and> apply_swap_elements (swap_elements_init 3 1) Q1 = Inr Q0"
    using permutation_problem_init_4 there again by simp
next
  assume a: "0 \<le>s i \<and> sint i < int (size_pp P) \<and> 0 \<le>s j \<and> sint j < int (size_pp P)"
  then have i: "index_of i < length (pi_m P)" and j: "index_of j < length (pi_m P)"
    by (simp_all add: in_bounds_index [unfolded size_pp_def] in_bounds_def size_pp_def)
  have "index_of (std_min i j) < length (pi_m P)"
    using std_min_cases [of i j] i j by auto
  moreover have "index_of (std_max i j) < length (pi_m P)"
    using std_max_cases [of i j] i j by auto
  ultimately show "\<exists>P'. apply_swap_elements (swap_elements_init i j) P = Inr P'
            \<and> apply_swap_elements (swap_elements_init i j) P' = Inr P"
    by (simp add: apply_swap_elements_def swap_elements_init_def swap_twice)
qed

theorem swap_elements_round_trip_witness:
  "(0::cint) \<le>s 1 \<and> sint (1::cint) < int (size_pp \<lparr>pi_m = [0, 1, 2, 3]\<rparr>)
   \<and> (0::cint) \<le>s 3 \<and> sint (3::cint) < int (size_pp \<lparr>pi_m = [0, 1, 2, 3]\<rparr>)
   \<and> (\<exists>P'. apply_swap_elements (swap_elements_init 1 3) \<lparr>pi_m = [0, 1, 2, 3]\<rparr> = Inr P'
         \<and> apply_swap_elements (swap_elements_init 1 3) P' = Inr \<lparr>pi_m = [0, 1, 2, 3]\<rparr>)"
  using swap_elements_round_trip [of 1 "\<lparr>pi_m = [0, 1, 2, 3]\<rparr>" 3]
  by (simp add: word_sle_eq size_pp_def)

text \<open>
  C9. A move manager made by the default constructor has an empty neighborhood: its
  \<open>size()\<close> is 0; and the \<open>size()\<close> of any move manager is the number of moves in its
  queue.
\<close>

theorem move_manager_size:
  "size_mm (move_manager_init :: 'm move_manager) = 0 \<and> size_mm mm = length (moves_m mm)"
  by (simp add: size_mm_def move_manager_init_def)

text \<open>
  C10. Every \<open>swap_elements\<close> object keeps \<open>p1 \<le> p2\<close> through its lifetime: the
  constructor and \<open>change(from, to)\<close> both store the smaller argument in \<open>p1\<close> and
  the larger in \<open>p2\<close>, so that the state after \<open>change\<close>, and with it the hash and
  any equality that compares the states, do not depend on the order of the arguments.
\<close>

theorem swap_elements_canonical_order:
  "(swap_elements_lifetime m \<longrightarrow> p1 m \<le>s p2 m)
   \<and> sint (p1 (swap_elements_init a b)) = min (sint a) (sint b)
   \<and> sint (p2 (swap_elements_init a b)) = max (sint a) (sint b)
   \<and> sint (p1 (change m' a b)) = min (sint a) (sint b)
   \<and> sint (p2 (change m' a b)) = max (sint a) (sint b)
   \<and> change m' a b = change m' b a
   \<and> hash (change m' a b) = hash (change m' b a)"
proof -
  have inv: "p1 m \<le>s p2 m" if "swap_elements_lifetime m"
    using that
    by (induction rule: swap_elements_lifetime.induct)
       (simp_all add: change_def swap_elements_init_def std_min_le_std_max)
  have same: "change m' a b = change m' b a"
    by (simp add: change_def std_min_comm [of a b] std_max_comm [of a b])
  have h: "hash (change m' a b) = hash (change m' b a)"
    by (simp only: same)
  have canon: "sint (p1 (swap_elements_init a b)) = min (sint a) (sint b)
               \<and> sint (p2 (swap_elements_init a b)) = max (sint a) (sint b)
               \<and> sint (p1 (change m' a b)) = min (sint a) (sint b)
               \<and> sint (p2 (change m' a b)) = max (sint a) (sint b)"
    by (simp add: swap_elements_init_def change_def sint_std_min sint_std_max)
  from inv same h canon show ?thesis by blast
qed

theorem swap_elements_canonical_order_witness:
  "swap_elements_lifetime (change (swap_elements_init 5 2) 7 3)
   \<and> p1 (change (swap_elements_init 5 2) 7 3) \<le>s p2 (change (swap_elements_init 5 2) 7 3)"
proof -
  have h: "swap_elements_lifetime (change (swap_elements_init 5 2) 7 3)"
    by (intro swap_elements_lifetime.intros)
  show ?thesis
    using h swap_elements_canonical_order
            [where m = "change (swap_elements_init 5 2) 7 3", THEN conjunct1]
    by simp
qed

end
